theory Spec2Isabelle
  imports Main "HOL-Library.Word"
begin

section \<open>Backoff tokens (struct Backoff, src/osd/Session.h)\<close>

text \<open>
  Reference-counted pointers are addresses. A \<open>BackoffRef\<close>, \<open>PGRef\<close> or
  \<open>SessionRef\<close> that may be null is an \<open>option\<close>; \<open>None\<close> is \<open>nullptr\<close>.
  The ordered containers of the C++ library compare \<open>BackoffRef\<close>s by address, so
  addresses are natural numbers. Threads are identified by a number as well.
\<close>

type_synonym backoff_ref = nat
type_synonym pg_ref = nat
type_synonym session_ref = nat
type_synonym thread = nat

text \<open>
  Modelled from the spec: \<open>Mutex\<close> (common/Mutex.h) is not part of the source at hand.
  The spec only says that a caller "holds the token's own lock"; a mutex is therefore the
  thread that holds it, if any, and \<open>is_locked_by_me\<close> asks whether that is the caller.
\<close>

type_synonym mutex = "thread option"

definition is_locked_by_me :: "thread \<Rightarrow> mutex \<Rightarrow> bool" where
  "is_locked_by_me me l = (l = Some me)"

text \<open>The anonymous enum of \<open>Backoff\<close>; \<open>state\<close> is a \<open>std::atomic<int>\<close>.\<close>

definition STATE_NEW :: int where "STATE_NEW = 1"
definition STATE_ACKED :: int where "STATE_ACKED = 2"
definition STATE_DELETING :: int where "STATE_DELETING = 3"

text \<open>
  The fields of \<open>Backoff\<close>, in the order of the source. \<open>'p\<close> is \<open>spg_t\<close> and \<open>'k\<close> is
  \<open>hobject_t\<close>; both types are declared elsewhere and are parameters here, linearly
  ordered because they are keys of a \<open>std::map\<close>. The fields \<open>id\<close>, \<open>begin\<close> and \<open>end\<close>
  are \<open>b_id\<close>, \<open>b_begin\<close> and \<open>b_end\<close>.
\<close>

record ('p, 'k) Backoff =
  state :: int
  pgid :: 'p
  b_id :: "64 word"
  lock :: mutex
  pg :: "pg_ref option"
  session :: "session_ref option"
  b_begin :: 'k
  b_end :: 'k

definition is_new :: "('p, 'k) Backoff \<Rightarrow> bool" where
  "is_new b = (state b = STATE_NEW)"

definition is_acked :: "('p, 'k) Backoff \<Rightarrow> bool" where
  "is_acked b = (state b = STATE_ACKED)"

definition is_deleting :: "('p, 'k) Backoff \<Rightarrow> bool" where
  "is_deleting b = (state b = STATE_DELETING)"

definition get_state_name :: "('p, 'k) Backoff \<Rightarrow> string" where
  "get_state_name b =
     (if state b = STATE_NEW then ''new''
      else if state b = STATE_ACKED then ''acked''
      else if state b = STATE_DELETING then ''deleting''
      else ''???'')"

text \<open>
  The constructor \<open>Backoff(pgid, pg, s, i, b, e)\<close>: the member initialisers copy the
  arguments, \<open>state\<close> keeps its default \<open>STATE_NEW\<close>, and the mutex is constructed
  unlocked. The body is empty: nothing is checked.
\<close>

definition new_Backoff ::
  "'p \<Rightarrow> pg_ref option \<Rightarrow> session_ref option \<Rightarrow> 64 word \<Rightarrow> 'k \<Rightarrow> 'k \<Rightarrow> ('p, 'k) Backoff" where
  "new_Backoff pgid' pg' s i b e =
     \<lparr>state = STATE_NEW, pgid = pgid', b_id = i, lock = None,
      pg = pg', session = s, b_begin = b, b_end = e\<rparr>"

section \<open>The ordered containers of the session\<close>

text \<open>
  A \<open>std::set\<close> is the list of its elements in ascending order and a \<open>std::map\<close> the
  list of its entries in ascending order of their keys. An iterator is a position in
  that list; \<open>end()\<close> is the length of the list and \<open>begin()\<close> is position 0.
\<close>

type_synonym 'a cset = "'a list"
type_synonym ('k, 'v) cmap = "('k \<times> 'v) list"

fun set_find :: "'a cset \<Rightarrow> 'a \<Rightarrow> nat" where
  "set_find [] x = 0"
| "set_find (y # ys) x = (if y = x then 0 else Suc (set_find ys x))"

fun set_insert :: "'a::linorder \<Rightarrow> 'a cset \<Rightarrow> 'a cset" where
  "set_insert x [] = [x]"
| "set_insert x (y # ys) =
     (if x = y then y # ys
      else if x < y then x # y # ys
      else y # set_insert x ys)"

fun map_find :: "('k, 'v) cmap \<Rightarrow> 'k \<Rightarrow> nat" where
  "map_find [] k = 0"
| "map_find ((k', v) # m) k = (if k' = k then 0 else Suc (map_find m k))"

text \<open>\<open>lower_bound\<close>: the first entry whose key is not less than \<open>k\<close>.\<close>

fun lower_bound :: "('k::linorder, 'v) cmap \<Rightarrow> 'k \<Rightarrow> nat" where
  "lower_bound [] k = 0"
| "lower_bound ((k', v) # m) k = (if k' < k then Suc (lower_bound m k) else 0)"

text \<open>
  \<open>m[k]\<close> followed by a change \<open>f\<close> of the mapped value through the reference that
  \<open>operator[]\<close> returns. A missing key is first inserted with a default-constructed
  value, which for both containers mapped here is the empty one.
\<close>

fun map_subscript ::
  "'k::linorder \<Rightarrow> ('v list \<Rightarrow> 'v list) \<Rightarrow> ('k, 'v list) cmap \<Rightarrow> ('k, 'v list) cmap" where
  "map_subscript k f [] = [(k, f [])]"
| "map_subscript k f ((k', v) # m) =
     (if k = k' then (k', f v) # m
      else if k < k' then (k, f []) # (k', v) # m
      else (k', v) # map_subscript k f m)"

text \<open>\<open>erase(iterator)\<close>, and a change of the mapped value through an iterator.\<close>

definition erase_at :: "nat \<Rightarrow> 'a list \<Rightarrow> 'a list" where
  "erase_at i xs = take i xs @ drop (Suc i) xs"

definition set_second :: "nat \<Rightarrow> 'v \<Rightarrow> ('k, 'v) cmap \<Rightarrow> ('k, 'v) cmap" where
  "set_second i v m = m[i := (fst (m ! i), v)]"

text \<open>
  Modelled from the spec: \<open>cmp\<close> on \<open>hobject_t\<close> is declared outside the source at hand.
  It is the three-way comparison of the order that \<open><\<close> and \<open>></\<close> decide.
\<close>

definition cmp :: "'k::linorder \<Rightarrow> 'k \<Rightarrow> int" where
  "cmp a b = (if a < b then - 1 else if a = b then 0 else 1)"

section \<open>Sessions (struct Session): the backoff index\<close>

text \<open>
  Of \<open>Session\<close> only the backoff fields are kept. \<open>backoff_count\<close> is a
  \<open>std::atomic<int>\<close>: a 32-bit word whose increments and decrements wrap around and
  which \<open>sint\<close> reads as the signed value.
\<close>

record ('p, 'k) Session =
  backoff_count :: "32 word"
  backoffs :: "('p, ('k, backoff_ref cset) cmap) cmap"
  backoff_seq :: "64 word"

definition new_Session :: "('p, 'k) Session" where
  "new_Session = \<lparr>backoff_count = 0, backoffs = [], backoff_seq = 0\<rparr>"

text \<open>
  The store: the \<open>Backoff\<close> that each \<open>BackoffRef\<close> points to. References keep their
  tokens alive, so every reference in the index points to one. The \<open>BackoffRef\<close> handed
  to \<open>add_backoff\<close> or \<open>rm_backoff\<close> is dereferenced without a check and is taken to be
  the address of a token, never \<open>nullptr\<close>. The session functions read tokens and never
  write them, so they take the store and do not return it.
\<close>

type_synonym ('p, 'k) heap = "backoff_ref \<Rightarrow> ('p, 'k) Backoff"

text \<open>
  A failed \<open>ceph_assert\<close> aborts the process; the model returns which assertion failed.
\<close>

datatype assert_failure =
  Assert_count_matches_empty
| Assert_lock_is_locked_by_me
| Assert_session_is_this

text \<open>
  \<open>Mutex::Locker l(backoff_lock)\<close> takes the session's lock where it is declared and
  releases it when the function returns. What a call does to \<open>backoff_lock\<close> is
  returned with its result; an abort leaves the lock taken.
\<close>

datatype lock_event = Lock_backoff_lock | Unlock_backoff_lock

definition Locker :: "assert_failure + 'a \<Rightarrow> lock_event list \<times> (assert_failure + 'a)" where
  "Locker r =
     (case r of
        Inl e \<Rightarrow> ([Lock_backoff_lock], Inl e)
      | Inr v \<Rightarrow> ([Lock_backoff_lock, Unlock_backoff_lock], Inr v))"

text \<open>The expression \<open>!backoff_count == backoffs.empty()\<close> of the three assertions.\<close>

definition count_matches_empty :: "('p, 'k) Session \<Rightarrow> bool" where
  "count_matches_empty S = ((backoff_count S = 0) = (backoffs S = []))"

subsection \<open>have_backoff\<close>

text \<open>The loop over the set \<open>p->second\<close>, in ascending order of the addresses.\<close>

fun scan :: "('p, 'k::linorder) heap \<Rightarrow> int \<Rightarrow> 'k \<Rightarrow> backoff_ref cset \<Rightarrow> backoff_ref option" where
  "scan h r oid [] = None"
| "scan h r oid (q # qs) =
     (if r = 0 \<or> oid < b_end (h q) then Some q else scan h r oid qs)"

text \<open>The search for the entry to look at: \<open>lower_bound\<close>, then one step back.\<close>

definition nearest :: "('k::linorder, 'v) cmap \<Rightarrow> 'k \<Rightarrow> nat" where
  "nearest m oid =
     (let p = lower_bound m oid in
      if p \<noteq> 0 \<and> (p = length m \<or> oid < fst (m ! p)) then p - 1 else p)"

definition have_backoff_locked ::
  "('p, 'k::linorder) heap \<Rightarrow> ('p, 'k) Session \<Rightarrow> 'p \<Rightarrow> 'k \<Rightarrow> assert_failure + backoff_ref option" where
  "have_backoff_locked h S pgid' oid =
     (if \<not> count_matches_empty S then Inl Assert_count_matches_empty
      else
        let i = map_find (backoffs S) pgid' in
        if i = length (backoffs S) then Inr None
        else
          let m = snd (backoffs S ! i);
              p = nearest m oid
          in
            if p \<noteq> length m then
              (let r = cmp oid (fst (m ! p)) in
               if r = 0 \<or> r > 0 then Inr (scan h r oid (snd (m ! p))) else Inr None)
            else Inr None)"

definition have_backoff ::
  "('p, 'k::linorder) heap \<Rightarrow> ('p, 'k) Session \<Rightarrow> 'p \<Rightarrow> 'k \<Rightarrow>
     lock_event list \<times> (assert_failure + backoff_ref option)" where
  "have_backoff h S pgid' oid =
     (if backoff_count S = 0 then ([], Inr None)
      else Locker (have_backoff_locked h S pgid' oid))"

subsection \<open>add_backoff\<close>

definition add_backoff_locked ::
  "('p::linorder, 'k::linorder) heap \<Rightarrow> ('p, 'k) Session \<Rightarrow> backoff_ref \<Rightarrow>
     assert_failure + ('p, 'k) Session" where
  "add_backoff_locked h S b =
     (if \<not> count_matches_empty S then Inl Assert_count_matches_empty
      else Inr (S\<lparr>backoffs :=
                    map_subscript (pgid (h b))
                      (map_subscript (b_begin (h b)) (set_insert b)) (backoffs S),
                  backoff_count := backoff_count S + 1\<rparr>))"

definition add_backoff ::
  "('p::linorder, 'k::linorder) heap \<Rightarrow> ('p, 'k) Session \<Rightarrow> backoff_ref \<Rightarrow>
     lock_event list \<times> (assert_failure + ('p, 'k) Session)" where
  "add_backoff h S b = Locker (add_backoff_locked h S b)"

subsection \<open>rm_backoff\<close>

text \<open>The nested \<open>if\<close>s of \<open>rm_backoff\<close> between the first two and the last assertion.\<close>

definition rm_backoff_unlink ::
  "('p, 'k) heap \<Rightarrow> ('p, 'k) Session \<Rightarrow> backoff_ref \<Rightarrow> ('p, 'k) Session" where
  "rm_backoff_unlink h S b =
     (let bs = backoffs S; i = map_find bs (pgid (h b)) in
      if i \<noteq> length bs then
        (let m = snd (bs ! i); p = map_find m (b_begin (h b)) in
         if p \<noteq> length m then
           (let s = snd (m ! p); q = set_find s b in
            if q \<noteq> length s then
              (let s' = erase_at q s;
                   c = backoff_count S - 1
               in
                 if s' = [] then
                   (let m' = erase_at p m in
                    if m' = [] then
                      S\<lparr>backoffs := erase_at i bs, backoff_count := c\<rparr>
                    else
                      S\<lparr>backoffs := set_second i m' bs, backoff_count := c\<rparr>)
                 else
                   S\<lparr>backoffs := set_second i (set_second p s' m) bs, backoff_count := c\<rparr>)
            else S)
         else S)
      else S)"

definition rm_backoff_locked ::
  "session_ref \<Rightarrow> thread \<Rightarrow> ('p, 'k) heap \<Rightarrow> ('p, 'k) Session \<Rightarrow> backoff_ref \<Rightarrow>
     assert_failure + ('p, 'k) Session" where
  "rm_backoff_locked this me h S b =
     (if \<not> is_locked_by_me me (lock (h b)) then Inl Assert_lock_is_locked_by_me
      else if session (h b) \<noteq> Some this then Inl Assert_session_is_this
      else
        let S' = rm_backoff_unlink h S b in
        if \<not> count_matches_empty S' then Inl Assert_count_matches_empty
        else Inr S')"

definition rm_backoff ::
  "session_ref \<Rightarrow> thread \<Rightarrow> ('p, 'k) heap \<Rightarrow> ('p, 'k) Session \<Rightarrow> backoff_ref \<Rightarrow>
     lock_event list \<times> (assert_failure + ('p, 'k) Session)" where
  "rm_backoff this me h S b = Locker (rm_backoff_locked this me h S b)"

section \<open>Sequences of calls\<close>

text \<open>
  A call of \<open>add_backoff\<close> or \<open>rm_backoff\<close> on one session, with the store as it is
  when the call is made and, for \<open>rm_backoff\<close>, the calling thread. \<open>run\<close> makes the
  calls one after the other and stops at the first failed assertion.
\<close>

datatype ('p, 'k) call =
  Add_backoff "('p, 'k) heap" backoff_ref
| Rm_backoff thread "('p, 'k) heap" backoff_ref

fun do_call ::
  "session_ref \<Rightarrow> ('p::linorder, 'k::linorder) Session \<Rightarrow> ('p, 'k) call \<Rightarrow>
     lock_event list \<times> (assert_failure + ('p, 'k) Session)" where
  "do_call this S (Add_backoff h b) = add_backoff h S b"
| "do_call this S (Rm_backoff me h b) = rm_backoff this me h S b"

fun run ::
  "session_ref \<Rightarrow> ('p::linorder, 'k::linorder) Session \<Rightarrow> ('p, 'k) call list \<Rightarrow>
     assert_failure + ('p, 'k) Session" where
  "run this S [] = Inr S"
| "run this S (c # cs) =
     (case snd (do_call this S c) of
        Inl e \<Rightarrow> Inl e
      | Inr S' \<Rightarrow> run this S' cs)"

section \<open>What the index holds\<close>

text \<open>The container mapped to a key, empty when \<open>find\<close> returns \<open>end()\<close>.\<close>

definition bucket :: "('k, 'v list) cmap \<Rightarrow> 'k \<Rightarrow> 'v list" where
  "bucket m k = (let i = map_find m k in if i = length m then [] else snd (m ! i))"

text \<open>The tokens registered for a shard, and the number of entries of the whole index.\<close>

definition registered :: "('p, 'k) Session \<Rightarrow> 'p \<Rightarrow> backoff_ref list" where
  "registered S pgid' = concat (map snd (bucket (backoffs S) pgid'))"

definition total_entries :: "('p, 'k) Session \<Rightarrow> nat" where
  "total_entries S = sum_list (map (\<lambda>e. sum_list (map (\<lambda>f. length (snd f)) (snd e))) (backoffs S))"

text \<open>The token is in the set that \<open>add_backoff\<close> and \<open>rm_backoff\<close> address for it.\<close>

definition present :: "('p, 'k) heap \<Rightarrow> ('p, 'k) Session \<Rightarrow> backoff_ref \<Rightarrow> bool" where
  "present h S b = (b \<in> set (bucket (bucket (backoffs S) (pgid (h b))) (b_begin (h b))))"

text \<open>
  The containers are well formed: keys and elements strictly ascending, as in every
  \<open>std::map\<close> and \<open>std::set\<close>, and no empty set or inner map, since \<open>rm_backoff\<close> erases
  them.
\<close>

definition wf_starts :: "('k::linorder, backoff_ref cset) cmap \<Rightarrow> bool" where
  "wf_starts m =
     (sorted_wrt (<) (map fst m) \<and> list_all (\<lambda>e. snd e \<noteq> [] \<and> sorted_wrt (<) (snd e)) m)"

definition wf_session :: "('p::linorder, 'k::linorder) Session \<Rightarrow> bool" where
  "wf_session S =
     (sorted_wrt (<) (map fst (backoffs S)) \<and>
      list_all (\<lambda>e. snd e \<noteq> [] \<and> wf_starts (snd e)) (backoffs S))"

text \<open>Every token is filed under its own shard-id and its own \<open>begin\<close>.\<close>

definition index_matches :: "('p, 'k) heap \<Rightarrow> ('p, 'k) Session \<Rightarrow> bool" where
  "index_matches h S =
     list_all (\<lambda>e. list_all (\<lambda>f. list_all (\<lambda>q. pgid (h q) = fst e \<and> b_begin (h q) = fst f) (snd f))
                 (snd e)) (backoffs S)"

text \<open>The key is blocked by the token: \<open>begin == key\<close>, or \<open>begin \<le> key < end\<close>.\<close>

definition covers :: "('p, 'k::linorder) heap \<Rightarrow> backoff_ref \<Rightarrow> 'k \<Rightarrow> bool" where
  "covers h q oid = (b_begin (h q) = oid \<or> (b_begin (h q) \<le> oid \<and> oid < b_end (h q)))"

text \<open>
  The ranges registered for a shard under different starts do not overlap: the one that
  starts first ends no later than the other starts.
\<close>

definition non_overlapping :: "('p, 'k::linorder) heap \<Rightarrow> ('p, 'k) Session \<Rightarrow> 'p \<Rightarrow> bool" where
  "non_overlapping h S pgid' =
     (\<forall>q \<in> set (registered S pgid'). \<forall>q' \<in> set (registered S pgid').
        b_begin (h q) < b_begin (h q') \<longrightarrow> b_end (h q) \<le> b_begin (h q'))"

text \<open>The store with the state of every token replaced.\<close>

definition with_states :: "(backoff_ref \<Rightarrow> int) \<Rightarrow> ('p, 'k) heap \<Rightarrow> ('p, 'k) heap" where
  "with_states f h = (\<lambda>q. (h q)\<lparr>state := f q\<rparr>)"

text \<open>The number of values of \<open>backoff_count\<close>: after that many increments it is back.\<close>

definition count_range :: nat where
  "count_range = 2 ^ 32"

text \<open>
  The equality of the count, read as the signed integer it is, and the number of entries.
\<close>

definition INT_MAX :: int where
  "INT_MAX = 2147483647"

definition count_is_total :: "('p, 'k) Session \<Rightarrow> bool" where
  "count_is_total S = (sint (backoff_count S) = int (total_entries S))"

section \<open>Example stores and sessions\<close>

text \<open>
  Every reference of \<open>one_heap\<close> points to a token for shard 1 and the range [5, 10);
  in \<open>held_heap\<close> thread 4 holds the lock of each; the tokens of \<open>single_heap\<close> block
  the single key 5. \<open>one_session\<close> is session 9 after \<open>add_backoff\<close> of token 3.
\<close>

definition one_heap :: "(nat, nat) heap" where
  "one_heap = (\<lambda>q. new_Backoff 1 (Some 7) (Some 9) 0 5 10)"

definition held_heap :: "(nat, nat) heap" where
  "held_heap = (\<lambda>q. (one_heap q)\<lparr>lock := Some 4\<rparr>)"


definition one_session :: "(nat, nat) Session" where
  "one_session = \<lparr>backoff_count = 1, backoffs = [(1, [(5, [3])])], backoff_seq = 0\<rparr>"

text \<open>
  \<open>two_session\<close> is session 9 after \<open>add_backoff\<close> of token 1, which starts at 1, and of
  token 2, which starts at 5, both for shard 1. In \<open>overlap_heap\<close> token 1 blocks
  [1, 10) and token 2 blocks [5, 6), inside it; in \<open>apart_heap\<close> token 1 blocks [1, 4).
\<close>

definition overlap_heap :: "(nat, nat) heap" where
  "overlap_heap =
     (\<lambda>q. if q = 1 then new_Backoff 1 (Some 7) (Some 9) 1 1 10
          else new_Backoff 1 (Some 7) (Some 9) 2 5 6)"

definition apart_heap :: "(nat, nat) heap" where
  "apart_heap =
     (\<lambda>q. if q = 1 then new_Backoff 1 (Some 7) (Some 9) 1 1 4
          else new_Backoff 1 (Some 7) (Some 9) 2 5 6)"

definition two_session :: "(nat, nat) Session" where
  "two_session = \<lparr>backoff_count = 2, backoffs = [(1, [(1, [1]), (5, [2])])], backoff_seq = 0\<rparr>"

section \<open>Auxiliary facts\<close>

subsection \<open>Results of the calls\<close>

lemma Locker_snd: "snd (Locker r) = r"
  by (simp add: Locker_def split: sum.splits)

lemma snd_add_backoff: "snd (add_backoff h S b) = add_backoff_locked h S b"
  by (simp add: add_backoff_def Locker_snd)

lemma snd_rm_backoff: "snd (rm_backoff this me h S b) = rm_backoff_locked this me h S b"
  by (simp add: rm_backoff_def Locker_snd)

lemma map_subscript_not_Nil: "map_subscript k f m \<noteq> []"
  by (cases m) (auto split: if_splits)

lemma map_find_le: "map_find m k \<le> length m"
  by (induction m) auto

subsection \<open>Where the count keeps matching the emptiness of the index\<close>

text \<open>
  \<open>add_backoff\<close> on a session that satisfies its assertion returns, and the session it
  leaves satisfies the assertion again unless the increment wraps the count to zero.
  \<open>rm_backoff\<close> checks the assertion itself before it returns.
\<close>

lemma add_backoff_keeps_count_matches_empty:
  assumes "count_matches_empty S" "backoff_count S + 1 \<noteq> 0"
  shows "\<exists>S'. add_backoff h S b = ([Lock_backoff_lock, Unlock_backoff_lock], Inr S') \<and>
              count_matches_empty S'"
  using assms
  by (simp add: add_backoff_def add_backoff_locked_def Locker_def count_matches_empty_def
      map_subscript_not_Nil)

lemma rm_backoff_checks_count_matches_empty:
  "snd (rm_backoff this me h S b) = Inr S' \<Longrightarrow> count_matches_empty S'"
  by (auto simp: snd_rm_backoff rm_backoff_locked_def Let_def split: if_splits)

lemma run_append:
  "run this S (xs @ ys) = (case run this S xs of Inl e \<Rightarrow> Inl e | Inr S' \<Rightarrow> run this S' ys)"
  by (induction xs arbitrary: S) (auto split: sum.splits)

subsection \<open>Adding the tokens at the addresses below a bound\<close>

lemma set_insert_last: "\<forall>y \<in> set s. y < x \<Longrightarrow> set_insert x s = s @ [x]"
  by (induction s) auto

lemma word32_of_nat_neq_0:
  assumes "0 < n" "n < count_range"
  shows "(of_nat n :: 32 word) \<noteq> 0"
proof
  note n = assms
  assume "(of_nat n :: 32 word) = 0"
  then have "2 ^ 32 dvd n" by (simp add: word_of_nat_eq_0_iff)
  then have "2 ^ 32 \<le> n" using n(1) by (rule dvd_imp_le)
  with n(2) show False by (simp add: count_range_def)
qed

lemma run_add_distinct:
  assumes "\<forall>q. pgid (h q) = p \<and> b_begin (h q) = k"
  shows "Suc n < count_range \<Longrightarrow>
    run this new_Session (map (Add_backoff h) [0..<Suc n]) =
    Inr \<lparr>backoff_count = of_nat (Suc n), backoffs = [(p, [(k, [0..<Suc n])])], backoff_seq = 0\<rparr>"
proof (induction n)
  case 0
  with assms show ?case
    by (simp add: snd_add_backoff add_backoff_locked_def count_matches_empty_def new_Session_def)
next
  case (Suc n)
  then have IH: "run this new_Session (map (Add_backoff h) [0..<Suc n]) =
    Inr \<lparr>backoff_count = of_nat (Suc n), backoffs = [(p, [(k, [0..<Suc n])])], backoff_seq = 0\<rparr>"
    by simp
  from Suc.prems have nz: "(of_nat (Suc n) :: 32 word) \<noteq> 0"
    by (intro word32_of_nat_neq_0) simp_all
  have ins: "set_insert (Suc n) [0..<Suc n] = [0..<Suc n] @ [Suc n]"
    by (rule set_insert_last) simp
  have up: "[0..<Suc (Suc n)] = [0..<Suc n] @ [Suc n]"
    by (rule upt_Suc_append) simp
  have step: "run this \<lparr>backoff_count = of_nat (Suc n), backoffs = [(p, [(k, [0..<Suc n])])], backoff_seq = 0\<rparr>
      [Add_backoff h (Suc n)] =
    Inr \<lparr>backoff_count = of_nat (Suc (Suc n)), backoffs = [(p, [(k, [0..<Suc (Suc n)])])], backoff_seq = 0\<rparr>"
    using assms nz
    by (simp add: snd_add_backoff add_backoff_locked_def count_matches_empty_def ins up
        del: upt_Suc set_insert.simps)
  have "map (Add_backoff h) [0..<Suc (Suc n)] =
        map (Add_backoff h) [0..<Suc n] @ [Add_backoff h (Suc n)]"
    by (simp only: up map_append list.map)
  then show ?case
    by (simp only: run_append IH sum.case step)
qed

subsection \<open>find and bucket\<close>

lemma map_find_end_iff: "(map_find m k = length m) = (k \<notin> fst ` set m)"
  by (induction m) (auto split: if_splits)

lemma set_find_end_iff: "(set_find s x = length s) = (x \<notin> set s)"
  by (induction s) auto

lemma bucket_Nil [simp]: "bucket [] k = []"
  by (simp add: bucket_def)

lemma bucket_Cons [simp]: "bucket ((k', v) # m) k = (if k' = k then v else bucket m k)"
  by (simp add: bucket_def Let_def)

lemma bucket_found: "map_find m k \<noteq> length m \<Longrightarrow> snd (m ! map_find m k) = bucket m k"
  by (simp add: bucket_def)

lemma bucket_missing: "map_find m k = length m \<Longrightarrow> bucket m k = []"
  by (simp add: bucket_def)

lemma bucket_in_set: "bucket m k \<noteq> [] \<Longrightarrow> (k, bucket m k) \<in> set m"
  by (induction m) (auto split: if_splits)

lemma erase_at_0 [simp]: "erase_at 0 (x # xs) = xs"
  by (simp add: erase_at_def)

lemma erase_at_Suc [simp]: "erase_at (Suc i) (x # xs) = x # erase_at i xs"
  by (simp add: erase_at_def)

lemma set_second_0 [simp]: "set_second 0 v (e # m) = (fst e, v) # m"
  by (simp add: set_second_def)

lemma set_second_Suc [simp]: "set_second (Suc i) v (e # m) = e # set_second i v m"
  by (simp add: set_second_def)

lemma bucket_erase_found:
  "distinct (map fst m) \<Longrightarrow> bucket (erase_at (map_find m k) m) k = []"
proof (induction m)
  case Nil
  then show ?case by (simp add: erase_at_def)
next
  case (Cons e m)
  obtain k' v where e: "e = (k', v)" by (cases e)
  show ?case
  proof (cases "k' = k")
    case True
    with Cons.prems e have "k \<notin> fst ` set m" by auto
    then have "bucket m k = []"
      by (simp add: bucket_missing map_find_end_iff)
    with True e show ?thesis by simp
  next
    case False
    with Cons e show ?thesis by simp
  qed
qed

lemma bucket_set_second_found:
  "map_find m k \<noteq> length m \<Longrightarrow> bucket (set_second (map_find m k) v m) k = v"
  by (induction m) auto

lemma set_erase_found:
  "distinct s \<Longrightarrow> x \<notin> set (erase_at (set_find s x) s)"
  by (induction s) (auto simp: erase_at_def)

lemma strict_sorted_distinct: "sorted_wrt (<) (xs :: 'a::linorder list) \<Longrightarrow> distinct xs"
  by (simp add: strict_sorted_iff)

subsection \<open>rm_backoff on a token that is not filed\<close>

lemma rm_backoff_unlink_absent: "\<not> present h S b \<Longrightarrow> rm_backoff_unlink h S b = S"
  by (auto simp: present_def rm_backoff_unlink_def Let_def bucket_def set_find_end_iff)

lemma wf_session_bucket:
  "wf_session S \<Longrightarrow> bucket (backoffs S) p \<noteq> [] \<Longrightarrow> wf_starts (bucket (backoffs S) p)"
  by (auto simp: wf_session_def list_all_iff dest!: bucket_in_set)

lemma wf_starts_bucket:
  "wf_starts m \<Longrightarrow> bucket m k \<noteq> [] \<Longrightarrow> sorted_wrt (<) (bucket m k)"
  by (auto simp: wf_starts_def list_all_iff dest!: bucket_in_set)

lemma rm_backoff_unlink_removes:
  assumes "wf_session S"
  shows "\<not> present h (rm_backoff_unlink h S b) b"
proof (cases "present h S b")
  case False
  then show ?thesis by (simp add: rm_backoff_unlink_absent)
next
  case True
  let ?bs = "backoffs S" and ?P = "pgid (h b)" and ?K = "b_begin (h b)"
  let ?m = "bucket ?bs ?P"
  let ?s = "bucket ?m ?K"
  from True have b: "b \<in> set ?s" by (simp add: present_def)
  then have s: "?s \<noteq> []" by auto
  then have m: "?m \<noteq> []" by auto
  from m have i: "map_find ?bs ?P \<noteq> length ?bs" by (auto dest: bucket_missing)
  from s have p: "map_find ?m ?K \<noteq> length ?m" by (auto dest: bucket_missing)
  from b have q: "set_find ?s b \<noteq> length ?s" by (simp add: set_find_end_iff)
  have wm: "wf_starts ?m" using assms m by (rule wf_session_bucket)
  have dbs: "distinct (map fst ?bs)"
    using assms by (simp add: wf_session_def strict_sorted_distinct)
  have dm: "distinct (map fst ?m)"
    using wm by (simp add: wf_starts_def strict_sorted_distinct)
  have ds: "distinct ?s"
    using wf_starts_bucket [OF wm s] by (rule strict_sorted_distinct)
  show ?thesis
    using i p q
    by (simp add: present_def rm_backoff_unlink_def Let_def bucket_found
        bucket_erase_found [OF dbs] bucket_erase_found [OF dm] bucket_set_second_found
        set_erase_found [OF ds])
qed

subsection \<open>set_insert and map_subscript\<close>

lemma set_insert_present:
  "sorted_wrt (<) s \<Longrightarrow> x \<in> set s \<Longrightarrow> set_insert x s = s"
  by (induction s) auto

lemma length_set_insert_fresh: "x \<notin> set s \<Longrightarrow> length (set_insert x s) = Suc (length s)"
  by (induction s) auto

lemma bucket_no_key: "k \<notin> fst ` set m \<Longrightarrow> bucket m k = []"
  by (induction m) auto

lemma map_subscript_same:
  "sorted_wrt (<) (map fst m) \<Longrightarrow> bucket m k \<noteq> [] \<Longrightarrow> f (bucket m k) = bucket m k \<Longrightarrow>
   map_subscript k f m = m"
proof (induction m)
  case Nil
  then show ?case by simp
next
  case (Cons e m)
  obtain k' v where e: "e = (k', v)" by (cases e)
  show ?case
  proof (cases "k < k'")
    case True
    with Cons.prems(1) e have "k \<notin> fst ` set (e # m)" by auto
    then have "bucket (e # m) k = []" by (rule bucket_no_key)
    with Cons.prems(2) show ?thesis by simp
  next
    case False
    with Cons e show ?thesis by auto
  qed
qed

lemma sum_map_subscript:
  assumes "g [] = (0::nat)"
  shows "sorted_wrt (<) (map fst m) \<Longrightarrow>
    sum_list (map (\<lambda>e. g (snd e)) (map_subscript k f m)) + g (bucket m k) =
    sum_list (map (\<lambda>e. g (snd e)) m) + g (f (bucket m k))"
proof (induction m)
  case Nil
  then show ?case by (simp add: assms)
next
  case (Cons e m)
  obtain k' v where e: "e = (k', v)" by (cases e)
  show ?case
  proof (cases "k < k'")
    case True
    with Cons.prems(1) e have "k \<notin> fst ` set (e # m)" by auto
    then have "bucket (e # m) k = []" by (rule bucket_no_key)
    with True e show ?thesis by (auto simp: assms)
  next
    case False
    with Cons e show ?thesis by auto
  qed
qed

lemma sint32_succ: "sint (c::32 word) < 2147483647 \<Longrightarrow> sint (c + 1) = sint c + 1"
proof -
  assume a: "sint c < 2147483647"
  have "- (2 ^ 31) \<le> sint c" using sint_ge [of c] by simp
  with a have "signed_take_bit 31 (sint c + 1) = sint c + 1"
    by (intro signed_take_bit_int_eq_self) simp_all
  then show ?thesis by (simp add: sint_word_ariths)
qed

lemma sint_succ_neq: "sint ((c::32 word) + 1) \<noteq> sint c"
proof
  assume "sint (c + 1) = sint c"
  then have "c + 1 = c" by (rule signed_word_eqI)
  then show False by simp
qed

lemma wf_session_bucket_sorted:
  "wf_session S \<Longrightarrow> sorted_wrt (<) (map fst (bucket (backoffs S) p))"
  by (cases "bucket (backoffs S) p = []") (auto dest: wf_session_bucket simp: wf_starts_def)

lemma add_backoff_present:
  assumes "wf_session S" "present h S b"
  shows "map_subscript (pgid (h b)) (map_subscript (b_begin (h b)) (set_insert b)) (backoffs S)
         = backoffs S"
proof -
  let ?m = "bucket (backoffs S) (pgid (h b))"
  let ?s = "bucket ?m (b_begin (h b))"
  from assms(2) have b: "b \<in> set ?s" by (simp add: present_def)
  then have s: "?s \<noteq> []" by auto
  then have m: "?m \<noteq> []" by auto
  have wm: "wf_starts ?m" using assms(1) m by (rule wf_session_bucket)
  have "set_insert b ?s = ?s"
    using wf_starts_bucket [OF wm s] b by (rule set_insert_present)
  with wm s have "map_subscript (b_begin (h b)) (set_insert b) ?m = ?m"
    by (intro map_subscript_same [where f = "set_insert b"]) (simp_all add: wf_starts_def)
  with assms(1) m show ?thesis
    by (intro map_subscript_same [where f = "map_subscript (b_begin (h b)) (set_insert b)"])
      (simp_all add: wf_session_def)
qed

lemma add_backoff_fresh:
  assumes "wf_session S" "\<not> present h S b"
  shows "total_entries (S\<lparr>backoffs := map_subscript (pgid (h b))
            (map_subscript (b_begin (h b)) (set_insert b)) (backoffs S), backoff_count := c\<rparr>)
         = Suc (total_entries S)"
proof -
  let ?g = "\<lambda>m::('b \<times> nat list) list. sum_list (map (\<lambda>f. length (snd f)) m)"
  let ?F = "map_subscript (b_begin (h b)) (set_insert b)"
  let ?m = "bucket (backoffs S) (pgid (h b))"
  let ?s = "bucket ?m (b_begin (h b))"
  from assms(2) have "length (set_insert b ?s) = Suc (length ?s)"
    by (simp add: present_def length_set_insert_fresh)
  moreover have "?g (?F ?m) + length ?s = ?g ?m + length (set_insert b ?s)"
    using wf_session_bucket_sorted [OF assms(1)] by (intro sum_map_subscript) simp_all
  ultimately have inner: "?g (?F ?m) = Suc (?g ?m)" by simp
  have "sum_list (map (\<lambda>e. ?g (snd e)) (map_subscript (pgid (h b)) ?F (backoffs S))) + ?g ?m
        = sum_list (map (\<lambda>e. ?g (snd e)) (backoffs S)) + ?g (?F ?m)"
    using assms(1) by (intro sum_map_subscript) (simp_all add: wf_session_def)
  with inner show ?thesis by (simp add: total_entries_def)
qed

subsection \<open>lower_bound and nearest\<close>

lemma lower_bound_le: "lower_bound m k \<le> length m"
  by (induction m) auto

lemma lower_bound_before: "j < lower_bound m k \<Longrightarrow> fst (m ! j) < k"
proof (induction m arbitrary: j)
  case Nil
  then show ?case by simp
next
  case (Cons e m)
  then show ?case by (cases e; cases j) (auto split: if_splits)
qed

lemma lower_bound_at: "lower_bound m k < length m \<Longrightarrow> k \<le> fst (m ! lower_bound m k)"
  by (induction m) auto

lemma sorted_keys_nth:
  "sorted_wrt (<) (map fst (m :: ('k::linorder \<times> 'v) list)) \<Longrightarrow> i \<le> j \<Longrightarrow> j < length m \<Longrightarrow> fst (m ! i) \<le> fst (m ! j)"
proof (cases "i = j")
  case True
  then show ?thesis by simp
next
  case False
  assume s: "sorted_wrt (<) (map fst m)" and "i \<le> j" and j: "j < length m"
  with False have "i < j" by simp
  with s j have "map fst m ! i < map fst m ! j"
    by (simp add: sorted_wrt_iff_nth_less)
  with \<open>i < j\<close> j show ?thesis by simp
qed

lemma nearest_hit:
  assumes "sorted_wrt (<) (map fst m)" "e \<in> set m" "fst e \<le> oid"
  shows "nearest m oid < length m \<and> fst e \<le> fst (m ! nearest m oid) \<and>
         fst (m ! nearest m oid) \<le> oid"
proof -
  let ?lb = "lower_bound m oid"
  from assms(2) obtain j where j: "j < length m" "m ! j = e"
    by (auto simp: in_set_conv_nth)
  have le: "?lb \<le> length m" by (rule lower_bound_le)
  show ?thesis
  proof (cases "?lb \<noteq> 0 \<and> (?lb = length m \<or> oid < fst (m ! ?lb))")
    case True
    then have n: "nearest m oid = ?lb - 1" by (simp add: nearest_def)
    from True le have lt: "?lb - 1 < length m" by auto
    from True have "?lb - 1 < ?lb" by simp
    then have below: "fst (m ! (?lb - 1)) < oid" by (rule lower_bound_before)
    have "j < ?lb"
    proof (rule ccontr)
      assume "\<not> j < ?lb"
      then have ge: "?lb \<le> j" by simp
      with j(1) le True have "oid < fst (m ! ?lb)" by auto
      also from assms(1) ge j(1) have "fst (m ! ?lb) \<le> fst (m ! j)" by (rule sorted_keys_nth)
      finally show False using j(2) assms(3) by simp
    qed
    then have "j \<le> ?lb - 1" by simp
    with assms(1) have "fst (m ! j) \<le> fst (m ! (?lb - 1))" using lt by (rule sorted_keys_nth)
    with n lt below j(2) show ?thesis by simp
  next
    case False
    then have n: "nearest m oid = ?lb" by (auto simp: nearest_def)
    have lt: "?lb < length m" and up: "fst (m ! ?lb) \<le> oid"
    proof -
      show "?lb < length m" using False le j(1) by (cases "?lb = 0") auto
      show "fst (m ! ?lb) \<le> oid"
      proof (cases "?lb = 0")
        case True
        from assms(1) have "fst (m ! 0) \<le> fst (m ! j)" using j(1) by (rule sorted_keys_nth [OF _ le0])
        with True j(2) assms(3) show ?thesis by simp
      next
        case nz: False
        with False show ?thesis by auto
      qed
    qed
    from lower_bound_at [OF lt] up have "fst (m ! ?lb) = oid" by simp
    with n lt assms(3) show ?thesis by simp
  qed
qed

lemma nearest_miss:
  assumes "\<forall>e \<in> set m. oid < fst e"
  shows "nearest m oid = length m \<or> oid < fst (m ! nearest m oid)"
proof (cases m)
  case Nil
  then show ?thesis by (simp add: nearest_def)
next
  case (Cons e m')
  with assms have "oid < fst e" by simp
  with Cons show ?thesis by (cases e) (auto simp: nearest_def)
qed

subsection \<open>scan\<close>

lemma scan_Some: "scan h r oid s = Some q \<Longrightarrow> q \<in> set s \<and> (r = 0 \<or> oid < b_end (h q))"
  by (induction s) (auto split: if_splits)

lemma scan_None: "scan h r oid s = None \<Longrightarrow> q \<in> set s \<Longrightarrow> r \<noteq> 0 \<and> \<not> oid < b_end (h q)"
  by (induction s) (auto split: if_splits)


subsection \<open>The lookup in the inner map of a shard\<close>

lemma cmp_ge_iff: "(cmp a b = 0 \<or> cmp a b > 0) = (b \<le> a)"
  by (auto simp: cmp_def)

lemma cmp_eq_iff: "(cmp a b = 0) = (a = b)"
  by (auto simp: cmp_def)

lemma lookup_in_bucket:
  fixes m :: "('k::linorder, backoff_ref cset) cmap" and h :: "('p, 'k) heap"
  assumes sorted: "sorted_wrt (<) (map fst m)"
      and nonempty: "\<forall>e \<in> set m. snd e \<noteq> []"
      and filed: "\<forall>e \<in> set m. \<forall>q \<in> set (snd e). b_begin (h q) = fst e"
      and apart: "\<forall>q \<in> set (concat (map snd m)). \<forall>q' \<in> set (concat (map snd m)).
                    b_begin (h q) < b_begin (h q') \<longrightarrow> b_end (h q) \<le> b_begin (h q')"
      and r: "r = (if nearest m oid \<noteq> length m
                   then (if cmp oid (fst (m ! nearest m oid)) = 0 \<or> cmp oid (fst (m ! nearest m oid)) > 0
                         then scan h (cmp oid (fst (m ! nearest m oid))) oid (snd (m ! nearest m oid))
                         else None)
                   else None)"
  shows "((r \<noteq> None) = (\<exists>q \<in> set (concat (map snd m)). covers h q oid)) \<and>
         (\<forall>q. r = Some q \<longrightarrow> q \<in> set (concat (map snd m)) \<and> covers h q oid)"
proof (cases "\<exists>e \<in> set m. fst e \<le> oid")
  case False
  then have above: "\<forall>e \<in> set m. oid < fst e" by auto
  from nearest_miss [OF this] have "r = None"
    by (auto simp: r cmp_def)
  moreover have "\<not> covers h q oid" if "q \<in> set (concat (map snd m))" for q
  proof -
    from that obtain e where e: "e \<in> set m" "q \<in> set (snd e)" by auto
    with filed have "b_begin (h q) = fst e" by blast
    with above e(1) have "oid < b_begin (h q)" by simp
    then show ?thesis by (auto simp: covers_def)
  qed
  ultimately show ?thesis by auto
next
  case True
  then obtain e0 where e0: "e0 \<in> set m" "fst e0 \<le> oid" by blast
  let ?p = "nearest m oid"
  let ?kp = "fst (m ! ?p)" and ?sp = "snd (m ! ?p)"
  from nearest_hit [OF sorted e0] have p: "?p < length m" and kp: "?kp \<le> oid" by simp_all
  have greatest: "fst e \<le> ?kp" if "e \<in> set m" "fst e \<le> oid" for e
    using nearest_hit [OF sorted that] by simp
  from p have mem: "m ! ?p \<in> set m" by simp
  from p kp have r': "r = scan h (cmp oid ?kp) oid ?sp"
    by (simp add: r cmp_ge_iff)
  show ?thesis
  proof (cases r)
    case (Some q)
    with r' have "scan h (cmp oid ?kp) oid ?sp = Some q" by simp
    from scan_Some [OF this]
    have "q \<in> set ?sp" and c: "cmp oid ?kp = 0 \<or> oid < b_end (h q)" by simp_all
    with mem filed have b: "b_begin (h q) = ?kp" by blast
    from c kp b have "covers h q oid"
      by (auto simp: covers_def cmp_eq_iff)
    moreover from \<open>q \<in> set ?sp\<close> mem have "q \<in> set (concat (map snd m))" by auto
    ultimately show ?thesis using Some by auto
  next
    case None
    with r' have "scan h (cmp oid ?kp) oid ?sp = None" by simp
    then have none: "cmp oid ?kp \<noteq> 0 \<and> \<not> oid < b_end (h q)" if "q \<in> set ?sp" for q
      using that by (rule scan_None)
    from nonempty mem obtain q0 where q0: "q0 \<in> set ?sp" by (cases ?sp) auto
    with none have "cmp oid ?kp \<noteq> 0" by blast
    with kp have below: "?kp < oid" by (auto simp: cmp_eq_iff)
    from q0 mem filed have b0: "b_begin (h q0) = ?kp" by blast
    from q0 mem have r0: "q0 \<in> set (concat (map snd m))" by auto
    have "\<not> covers h q oid" if q: "q \<in> set (concat (map snd m))" for q
    proof
      assume cov: "covers h q oid"
      from q obtain e where e: "e \<in> set m" "q \<in> set (snd e)" by auto
      with filed have b: "b_begin (h q) = fst e" by blast
      with cov have "fst e \<le> oid" by (auto simp: covers_def)
      with e(1) have le: "fst e \<le> ?kp" by (rule greatest)
      show False
      proof (cases "fst e = ?kp")
        case True
        from sorted have "distinct (map fst m)" by (rule strict_sorted_distinct)
        with e(1) mem True have "e = m ! ?p"
          by (metis eq_key_imp_eq_value prod.collapse)
        with e(2) none have "\<not> oid < b_end (h q)" by simp
        with cov b True below show False by (auto simp: covers_def)
      next
        case False
        with le b b0 have "b_begin (h q) < b_begin (h q0)" by simp
        with apart q r0 have "b_end (h q) \<le> b_begin (h q0)" by blast
        with cov b b0 below le show False by (auto simp: covers_def)
      qed
    qed
    with None show ?thesis by auto
  qed
qed

lemma have_backoff_via_bucket:
  assumes "count_matches_empty S"
  shows "snd (have_backoff h S P oid) =
    Inr (let m = bucket (backoffs S) P in
         if nearest m oid \<noteq> length m
         then (if cmp oid (fst (m ! nearest m oid)) = 0 \<or> cmp oid (fst (m ! nearest m oid)) > 0
               then scan h (cmp oid (fst (m ! nearest m oid))) oid (snd (m ! nearest m oid))
               else None)
         else None)"
proof (cases "backoffs S = []")
  case True
  with assms show ?thesis
    by (simp add: have_backoff_def count_matches_empty_def nearest_def)
next
  case False
  with assms have c: "backoff_count S \<noteq> 0" by (simp add: count_matches_empty_def)
  show ?thesis
  proof (cases "map_find (backoffs S) P = length (backoffs S)")
    case True
    with c assms show ?thesis
      by (simp add: have_backoff_def have_backoff_locked_def Locker_snd bucket_missing nearest_def)
  next
    case False
    with c assms show ?thesis
      by (simp add: have_backoff_def have_backoff_locked_def Locker_snd bucket_found Let_def)
  qed
qed

lemma index_matches_bucket:
  assumes "index_matches h S" "e \<in> set (bucket (backoffs S) P)" "q \<in> set (snd e)"
  shows "pgid (h q) = P \<and> b_begin (h q) = fst e"
proof -
  from assms(2) have "bucket (backoffs S) P \<noteq> []" by auto
  then have "(P, bucket (backoffs S) P) \<in> set (backoffs S)" by (rule bucket_in_set)
  with assms show ?thesis
    by (fastforce simp: index_matches_def list_all_iff)
qed

subsection \<open>Well-formedness is kept\<close>

lemma set_set_insert: "set (set_insert x s) = insert x (set s)"
  by (induction s) auto

lemma sorted_set_insert: "sorted_wrt (<) s \<Longrightarrow> sorted_wrt (<) (set_insert x s)"
  by (induction s) (auto simp: set_set_insert)

lemma set_insert_not_Nil: "set_insert x s \<noteq> []"
  by (cases s) (auto split: if_splits)

lemma keys_map_subscript: "fst ` set (map_subscript k f m) = insert k (fst ` set m)"
proof (induction m)
  case Nil
  then show ?case by simp
next
  case (Cons e m)
  obtain k' v where e: "e = (k', v)" by (cases e)
  show ?case
    by (cases "k = k'"; cases "k < k'") (simp_all add: e Cons.IH insert_commute)
qed

lemma sorted_map_subscript:
  "sorted_wrt (<) (map fst m) \<Longrightarrow> sorted_wrt (<) (map fst (map_subscript k f m))"
proof (induction m)
  case Nil
  then show ?case by simp
next
  case (Cons e m)
  obtain k' v where e: "e = (k', v)" by (cases e)
  from Cons.prems e have r: "\<forall>y \<in> fst ` set m. k' < y" and s: "sorted_wrt (<) (map fst m)"
    by auto
  show ?case
  proof (cases "k = k' \<or> k < k'")
    case True
    with Cons.prems e show ?thesis by auto
  next
    case False
    then have "k' < k" by auto
    with r have "\<forall>y \<in> fst ` set (map_subscript k f m). k' < y"
      by (simp add: keys_map_subscript)
    with False e Cons.IH [OF s] show ?thesis by auto
  qed
qed

lemma list_all_map_subscript:
  assumes "list_all Q m" and "Q (k, f (bucket m k))"
      and "sorted_wrt (<) (map fst m)"
  shows "list_all Q (map_subscript k f m)"
  using assms
proof (induction m)
  case Nil
  then show ?case by simp
next
  case (Cons e m)
  obtain k' v where e: "e = (k', v)" by (cases e)
  show ?case
  proof (cases "k < k'")
    case True
    with Cons.prems(3) e have "k \<notin> fst ` set (e # m)" by auto
    then have "bucket (e # m) k = []" by (rule bucket_no_key)
    with Cons.prems True e show ?thesis by auto
  next
    case False
    with Cons e show ?thesis by auto
  qed
qed

lemma wf_starts_Nil: "wf_starts []"
  by (simp add: wf_starts_def)

lemma wf_starts_bucket_any: "wf_session S \<Longrightarrow> wf_starts (bucket (backoffs S) p)"
  by (cases "bucket (backoffs S) p = []") (auto simp: wf_starts_Nil dest: wf_session_bucket)

lemma sorted_bucket_any: "wf_starts m \<Longrightarrow> sorted_wrt (<) (bucket m k)"
  by (cases "bucket m k = []") (auto dest: wf_starts_bucket)

lemma wf_starts_add:
  assumes "wf_starts m"
  shows "wf_starts (map_subscript k (set_insert b) m)"
proof -
  from assms have s: "sorted_wrt (<) (map fst m)" by (simp add: wf_starts_def)
  have "list_all (\<lambda>e. snd e \<noteq> [] \<and> sorted_wrt (<) (snd e)) (map_subscript k (set_insert b) m)"
    using assms s
    by (intro list_all_map_subscript)
      (simp_all add: wf_starts_def set_insert_not_Nil sorted_set_insert sorted_bucket_any [OF assms])
  with sorted_map_subscript [OF s] show ?thesis by (simp add: wf_starts_def)
qed

lemma wf_session_add:
  assumes "wf_session S"
  shows "wf_session (S\<lparr>backoffs := map_subscript p (map_subscript k (set_insert b)) (backoffs S),
                       backoff_count := c\<rparr>)"
proof -
  from assms have s: "sorted_wrt (<) (map fst (backoffs S))" by (simp add: wf_session_def)
  have "list_all (\<lambda>e. snd e \<noteq> [] \<and> wf_starts (snd e))
          (map_subscript p (map_subscript k (set_insert b)) (backoffs S))"
    using assms s
    by (intro list_all_map_subscript)
      (simp_all add: wf_session_def map_subscript_not_Nil wf_starts_add wf_starts_bucket_any [OF assms])
  with sorted_map_subscript [OF s] show ?thesis by (simp add: wf_session_def)
qed

lemma set_erase_at: "set (erase_at i xs) \<subseteq> set xs"
  by (auto simp: erase_at_def dest: in_set_takeD in_set_dropD)

lemma erase_at_Nil [simp]: "erase_at i [] = []"
  by (simp add: erase_at_def)

lemma sorted_erase_at: "sorted_wrt (<) (xs :: 'a::linorder list) \<Longrightarrow> sorted_wrt (<) (erase_at i xs)"
proof (induction xs arbitrary: i)
  case Nil
  then show ?case by simp
next
  case (Cons x xs)
  show ?case
  proof (cases i)
    case 0
    with Cons.prems show ?thesis by simp
  next
    case (Suc j)
    from Cons.prems have "\<forall>y \<in> set (erase_at j xs). x < y"
      using set_erase_at [of j xs] by auto
    with Cons Suc show ?thesis by simp
  qed
qed

lemma map_fst_erase_at: "map fst (erase_at i m) = erase_at i (map fst m)"
  by (simp add: erase_at_def take_map drop_map)

lemma list_all_erase_at: "list_all Q xs \<Longrightarrow> list_all Q (erase_at i xs)"
  using set_erase_at [of i xs] by (auto simp: list_all_iff)

lemma map_fst_set_second: "map fst (set_second i v m) = map fst m"
  by (cases "i < length m")
    (simp_all add: set_second_def map_update list_update_same_conv list_update_beyond)

lemma list_all_set_second:
  "list_all Q m \<Longrightarrow> Q (fst (m ! i), v) \<Longrightarrow> list_all Q (set_second i v m)"
  by (auto simp: set_second_def list_all_iff dest!: set_update_subset_insert [THEN subsetD])


lemma set_set_second: "set (set_second i v m) \<subseteq> insert (fst (m ! i), v) (set m)"
  unfolding set_second_def by (rule set_update_subset_insert)

lemma wf_session_nth:
  "wf_session S \<Longrightarrow> i < length (backoffs S) \<Longrightarrow> wf_starts (snd (backoffs S ! i))"
  by (simp add: wf_session_def list_all_length)

lemma wf_starts_nth: "wf_starts m \<Longrightarrow> p < length m \<Longrightarrow> sorted_wrt (<) (snd (m ! p))"
  by (simp add: wf_starts_def list_all_length)

lemma wf_starts_erase_at: "wf_starts m \<Longrightarrow> wf_starts (erase_at p m)"
  by (simp add: wf_starts_def map_fst_erase_at sorted_erase_at list_all_erase_at)

lemma wf_starts_set_second:
  "wf_starts m \<Longrightarrow> s \<noteq> [] \<Longrightarrow> sorted_wrt (<) s \<Longrightarrow> wf_starts (set_second p s m)"
  by (simp add: wf_starts_def map_fst_set_second list_all_set_second)

lemma wf_session_erase_at:
  "wf_session S \<Longrightarrow> wf_session (S\<lparr>backoffs := erase_at i (backoffs S), backoff_count := c\<rparr>)"
  by (simp add: wf_session_def map_fst_erase_at sorted_erase_at list_all_erase_at)

lemma wf_session_set_second:
  "wf_session S \<Longrightarrow> m \<noteq> [] \<Longrightarrow> wf_starts m \<Longrightarrow>
   wf_session (S\<lparr>backoffs := set_second i m (backoffs S), backoff_count := c\<rparr>)"
  by (simp add: wf_session_def map_fst_set_second list_all_set_second)

lemma set_second_not_Nil: "m \<noteq> [] \<Longrightarrow> set_second p s m \<noteq> []"
  by (simp add: set_second_def)

lemma wf_session_rm: 
  assumes "wf_session S"
  shows "wf_session (rm_backoff_unlink h S b)"
proof -
  let ?bs = "backoffs S"
  let ?i = "map_find ?bs (pgid (h b))"
  let ?m = "snd (?bs ! ?i)"
  let ?p = "map_find ?m (b_begin (h b))"
  let ?s = "snd (?m ! ?p)"
  let ?q = "set_find ?s b"
  show ?thesis
  proof (cases "?i \<noteq> length ?bs \<and> ?p \<noteq> length ?m \<and> ?q \<noteq> length ?s")
    case False
    with assms show ?thesis by (auto simp: rm_backoff_unlink_def Let_def)
  next
    case True
    with map_find_le [of ?bs "pgid (h b)"] have i: "?i < length ?bs" by simp
    from True map_find_le [of ?m "b_begin (h b)"] have p: "?p < length ?m" by simp
    from assms i have wm: "wf_starts ?m" by (rule wf_session_nth)
    from wm p have "sorted_wrt (<) ?s" by (rule wf_starts_nth)
    then have ss: "sorted_wrt (<) (erase_at ?q ?s)" by (rule sorted_erase_at)
    from p have mn: "?m \<noteq> []" by auto
    show ?thesis
      using True assms wm ss mn
      by (simp add: rm_backoff_unlink_def Let_def wf_session_erase_at wf_session_set_second
          wf_starts_erase_at wf_starts_set_second set_second_not_Nil)
  qed
qed

lemma run_wf_session: "wf_session S \<Longrightarrow> run this S cs = Inr S' \<Longrightarrow> wf_session S'"
proof (induction cs arbitrary: S)
  case Nil
  then show ?case by simp
next
  case (Cons c cs)
  from Cons.prems(2) obtain S1 where c: "snd (do_call this S c) = Inr S1"
    and r: "run this S1 cs = Inr S'"
    by (auto split: sum.splits)
  have "wf_session S1"
  proof (cases c)
    case (Add_backoff h b)
    with c have "S1 = S\<lparr>backoffs := map_subscript (pgid (h b))
                      (map_subscript (b_begin (h b)) (set_insert b)) (backoffs S),
                  backoff_count := backoff_count S + 1\<rparr>"
      by (simp add: snd_add_backoff add_backoff_locked_def split: if_splits)
    with Cons.prems(1) show ?thesis by (simp add: wf_session_add)
  next
    case (Rm_backoff me h b)
    with c have "S1 = rm_backoff_unlink h S b"
      by (auto simp: snd_rm_backoff rm_backoff_locked_def Let_def split: if_splits)
    with Cons.prems(1) show ?thesis by (simp add: wf_session_rm)
  qed
  then show ?case using r by (rule Cons.IH)
qed

lemma wf_new_Session: "wf_session new_Session"
  by (simp add: wf_session_def new_Session_def)

subsection \<open>Tokens stay filed under their shard-id and begin\<close>

lemma index_matches_iff:
  "index_matches h S =
     (\<forall>e \<in> set (backoffs S). \<forall>f \<in> set (snd e). \<forall>q \<in> set (snd f).
        pgid (h q) = fst e \<and> b_begin (h q) = fst f)"
  by (simp add: index_matches_def list_all_iff)

lemma set_map_subscript:
  "sorted_wrt (<) (map fst m) \<Longrightarrow> set (map_subscript k f m) \<subseteq> insert (k, f (bucket m k)) (set m)"
proof (induction m)
  case Nil
  then show ?case by simp
next
  case (Cons e m)
  obtain k' v where e: "e = (k', v)" by (cases e)
  show ?case
  proof (cases "k < k'")
    case True
    with Cons.prems e have "k \<notin> fst ` set (e # m)" by auto
    then have "bucket (e # m) k = []" by (rule bucket_no_key)
    with True e show ?thesis by auto
  next
    case False
    with Cons e show ?thesis by auto
  qed
qed

lemma bucket_mem: "e \<in> set (bucket m k) \<Longrightarrow> (k, bucket m k) \<in> set m"
  by (rule bucket_in_set) auto

lemma index_matches_add:
  assumes wf: "wf_session S" and im: "index_matches h S"
  shows "index_matches h
           (S\<lparr>backoffs := map_subscript (pgid (h b))
                 (map_subscript (b_begin (h b)) (set_insert b)) (backoffs S),
              backoff_count := c\<rparr>)"
proof -
  let ?P = "pgid (h b)" and ?K = "b_begin (h b)"
  let ?m = "bucket (backoffs S) ?P"
  let ?F = "map_subscript ?K (set_insert b)"
  have old: "pgid (h q) = fst e \<and> b_begin (h q) = fst f"
    if "e \<in> set (backoffs S)" "f \<in> set (snd e)" "q \<in> set (snd f)" for e f q
    using im that by (simp add: index_matches_iff)
  have inner: "pgid (h q) = ?P \<and> b_begin (h q) = fst f"
    if f: "f \<in> set (?F ?m)" and q: "q \<in> set (snd f)" for f q
  proof -
    have "sorted_wrt (<) (map fst ?m)" using wf by (rule wf_session_bucket_sorted)
    from set_map_subscript [OF this, of ?K "set_insert b"] f
    consider "f = (?K, set_insert b (bucket ?m ?K))" | "f \<in> set ?m" by auto
    then show ?thesis
    proof cases
      case 1
      with q have "q = b \<or> q \<in> set (bucket ?m ?K)" by (simp add: set_set_insert)
      then show ?thesis
      proof
        assume "q = b"
        with 1 show ?thesis by simp
      next
        assume qs: "q \<in> set (bucket ?m ?K)"
        then have k: "(?K, bucket ?m ?K) \<in> set ?m" by (rule bucket_mem)
        then have "(?P, ?m) \<in> set (backoffs S)" by (rule bucket_mem)
        from old [OF this, of "(?K, bucket ?m ?K)" q] k qs 1 show ?thesis by simp
      qed
    next
      case 2
      then have "(?P, ?m) \<in> set (backoffs S)" by (rule bucket_mem)
      from old [OF this, of f q] 2 q show ?thesis by simp
    qed
  qed
  show ?thesis
    unfolding index_matches_iff
  proof (intro ballI)
    fix e f q
    assume "e \<in> set (backoffs (S\<lparr>backoffs := map_subscript ?P ?F (backoffs S), backoff_count := c\<rparr>))"
      and f: "f \<in> set (snd e)" and q: "q \<in> set (snd f)"
    then have e: "e \<in> set (map_subscript ?P ?F (backoffs S))" by simp
    from wf have "sorted_wrt (<) (map fst (backoffs S))" by (simp add: wf_session_def)
    from set_map_subscript [OF this, of ?P ?F] e
    consider "e = (?P, ?F ?m)" | "e \<in> set (backoffs S)" by auto
    then show "pgid (h q) = fst e \<and> b_begin (h q) = fst f"
    proof cases
      case 1
      with f inner [of f q] q show ?thesis by simp
    next
      case 2
      then show ?thesis using f q by (rule old)
    qed
  qed
qed

lemma index_matches_rm:
  assumes "index_matches h S"
  shows "index_matches h (rm_backoff_unlink h' S b)"
proof -
  let ?bs = "backoffs S"
  let ?i = "map_find ?bs (pgid (h' b))"
  let ?m = "snd (?bs ! ?i)"
  let ?p = "map_find ?m (b_begin (h' b))"
  let ?s = "snd (?m ! ?p)"
  let ?q = "set_find ?s b"
  show ?thesis
  proof (cases "?i \<noteq> length ?bs \<and> ?p \<noteq> length ?m \<and> ?q \<noteq> length ?s")
    case False
    with assms show ?thesis by (auto simp: rm_backoff_unlink_def Let_def)
  next
    case True
    with map_find_le [of ?bs "pgid (h' b)"] have i: "?i < length ?bs" by simp
    from True map_find_le [of ?m "b_begin (h' b)"] have p: "?p < length ?m" by simp
    from i have ei: "?bs ! ?i \<in> set ?bs" by simp
    from p have fp: "?m ! ?p \<in> set ?m" by simp
    have old: "pgid (h q) = fst e \<and> b_begin (h q) = fst f"
      if "e \<in> set ?bs" "f \<in> set (snd e)" "q \<in> set (snd f)" for e f q
      using assms that by (simp add: index_matches_iff)
    let ?s' = "erase_at ?q ?s"
    have A: "index_matches h (S\<lparr>backoffs := erase_at ?i ?bs, backoff_count := c\<rparr>)" for c
      unfolding index_matches_iff
    proof (intro ballI)
      fix e f q
      assume "e \<in> set (backoffs (S\<lparr>backoffs := erase_at ?i ?bs, backoff_count := c\<rparr>))"
        and f: "f \<in> set (snd e)" and q: "q \<in> set (snd f)"
      with set_erase_at [of ?i ?bs] have "e \<in> set ?bs" by auto
      then show "pgid (h q) = fst e \<and> b_begin (h q) = fst f" using f q by (rule old)
    qed
    have B: "index_matches h (S\<lparr>backoffs := set_second ?i m' ?bs, backoff_count := c\<rparr>)"
      if m': "\<forall>f \<in> set m'. \<forall>q \<in> set (snd f). pgid (h q) = fst (?bs ! ?i) \<and> b_begin (h q) = fst f"
      for c m'
      unfolding index_matches_iff
    proof (intro ballI)
      fix e f q
      assume e: "e \<in> set (backoffs (S\<lparr>backoffs := set_second ?i m' ?bs, backoff_count := c\<rparr>))"
        and f: "f \<in> set (snd e)" and q: "q \<in> set (snd f)"
      from e set_set_second [of ?i m' ?bs]
      consider "e = (fst (?bs ! ?i), m')" | "e \<in> set ?bs" by auto
      then show "pgid (h q) = fst e \<and> b_begin (h q) = fst f"
      proof cases
        case 1
        with f q m' show ?thesis by simp
      next
        case 2
        then show ?thesis using f q by (rule old)
      qed
    qed
    have m1: "\<forall>f \<in> set (erase_at ?p ?m). \<forall>q \<in> set (snd f).
                pgid (h q) = fst (?bs ! ?i) \<and> b_begin (h q) = fst f"
    proof (intro ballI)
      fix f q
      assume "f \<in> set (erase_at ?p ?m)" and q: "q \<in> set (snd f)"
      with set_erase_at [of ?p ?m] have "f \<in> set ?m" by auto
      with ei show "pgid (h q) = fst (?bs ! ?i) \<and> b_begin (h q) = fst f" using q by (rule old)
    qed
    have m2: "\<forall>f \<in> set (set_second ?p ?s' ?m). \<forall>q \<in> set (snd f).
                pgid (h q) = fst (?bs ! ?i) \<and> b_begin (h q) = fst f"
    proof (intro ballI)
      fix f q
      assume f: "f \<in> set (set_second ?p ?s' ?m)" and q: "q \<in> set (snd f)"
      from f set_set_second [of ?p ?s' ?m]
      consider "f = (fst (?m ! ?p), ?s')" | "f \<in> set ?m" by auto
      then show "pgid (h q) = fst (?bs ! ?i) \<and> b_begin (h q) = fst f"
      proof cases
        case 1
        with q set_erase_at [of ?q ?s] have "q \<in> set ?s" by auto
        from old [OF ei fp this] 1 show ?thesis by simp
      next
        case 2
        with ei show ?thesis using q by (rule old)
      qed
    qed
    show ?thesis
      using True A B [OF m1] B [OF m2]
      by (simp add: rm_backoff_unlink_def Let_def)
  qed
qed

lemma run_index_matches:
  assumes "\<forall>h' b. Add_backoff h' b \<in> set cs \<longrightarrow>
             pgid (h' b) = pgid (h b) \<and> b_begin (h' b) = b_begin (h b)"
  shows "wf_session S \<Longrightarrow> index_matches h S \<Longrightarrow> run this S cs = Inr S' \<Longrightarrow> index_matches h S'"
  using assms
proof (induction cs arbitrary: S)
  case Nil
  then show ?case by simp
next
  case (Cons c cs)
  from Cons.prems(3) obtain S1 where c: "snd (do_call this S c) = Inr S1"
    and r: "run this S1 cs = Inr S'"
    by (auto split: sum.splits)
  from Cons.prems(1) c have w1: "wf_session S1"
    using run_wf_session [of S this "[c]" S1] by simp
  have "index_matches h S1"
  proof (cases c)
    case (Add_backoff h' b)
    with Cons.prems(4) have "pgid (h' b) = pgid (h b)" "b_begin (h' b) = b_begin (h b)"
      by simp_all
    with c Add_backoff have "S1 = S\<lparr>backoffs := map_subscript (pgid (h b))
                      (map_subscript (b_begin (h b)) (set_insert b)) (backoffs S),
                  backoff_count := backoff_count S + 1\<rparr>"
      by (simp add: snd_add_backoff add_backoff_locked_def split: if_splits)
    with Cons.prems(1,2) show ?thesis by (simp add: index_matches_add)
  next
    case (Rm_backoff me h' b)
    with c have "S1 = rm_backoff_unlink h' S b"
      by (auto simp: snd_rm_backoff rm_backoff_locked_def Let_def split: if_splits)
    with Cons.prems(2) show ?thesis by (simp add: index_matches_rm)
  qed
  with w1 show ?case using r Cons.prems(4) by (intro Cons.IH) auto
qed

text \<open>
  Hence every session that calls of \<open>add_backoff\<close> and \<open>rm_backoff\<close> reach from a fresh
  one is well formed, and files every token under its shard-id and \<open>begin\<close> as long as
  these two fields of a token are the same at every call that adds it.
\<close>

lemma reachable_session:
  assumes "run this new_Session cs = Inr S"
      and "\<forall>h' b. Add_backoff h' b \<in> set cs \<longrightarrow>
             pgid (h' b) = pgid (h b) \<and> b_begin (h' b) = b_begin (h b)"
  shows "wf_session S \<and> index_matches h S"
proof -
  have w: "wf_session (new_Session :: ('a, 'b) Session)" by (rule wf_new_Session)
  have i: "index_matches h (new_Session :: ('a, 'b) Session)"
    by (simp add: index_matches_def new_Session_def)
  from run_wf_session [OF w assms(1)] run_index_matches [OF assms(2) w i assms(1)]
  show ?thesis by simp
qed

subsection \<open>The bucket that add_backoff fills\<close>



section \<open>The count and the emptiness of the index\<close>

text \<open>
  C2: the code does not keep \<open>backoff_count == 0\<close> equivalent to \<open>backoffs.empty()\<close>
  after every call. \<open>backoff_count\<close> is a 32-bit counter that \<open>add_backoff\<close> increments
  without looking at its value. On a fresh session, \<open>add_backoff\<close> of \<open>2 ^ 32\<close> tokens,
  here the tokens at the addresses 0 to \<open>2 ^ 32 - 1\<close>, all for shard 1 and the range
  [5, 10): every call passes its assertion and returns, and the last one leaves the count
  at zero with the index not empty. This is the state that the assertion of the three
  functions excludes: the next \<open>add_backoff\<close> aborts on it, and \<open>have_backoff\<close> takes its
  fast path and returns \<open>nullptr\<close> for the key 7, which every registered token blocks.
\<close>

theorem count_wraps_to_zero:
  "run 9 new_Session (map (Add_backoff one_heap) [0..<4294967296]) =
     Inr \<lparr>backoff_count = 0, backoffs = [(1, [(5, [0..<4294967296])])], backoff_seq = 0\<rparr> \<and>
   \<not> count_matches_empty
     (\<lparr>backoff_count = 0, backoffs = [(1, [(5, [0..<4294967296])])], backoff_seq = 0\<rparr>
        :: (nat, nat) Session) \<and>
   add_backoff one_heap
     \<lparr>backoff_count = 0, backoffs = [(1, [(5, [0..<4294967296])])], backoff_seq = 0\<rparr> 4294967296 =
     ([Lock_backoff_lock], Inl Assert_count_matches_empty) \<and>
   covers one_heap 0 7 \<and>
   have_backoff one_heap
     \<lparr>backoff_count = 0, backoffs = [(1, [(5, [0..<4294967296])])], backoff_seq = 0\<rparr> 1 7 =
     ([], Inr None)"
proof -
  have hb: "\<forall>q. pgid (one_heap q) = 1 \<and> b_begin (one_heap q) = 5"
    by (simp add: one_heap_def new_Backoff_def)
  have n: "(4294967296::nat) = Suc (Suc 4294967294)" by simp
  have b: "Suc 4294967294 < count_range" by (simp add: count_range_def)
  have r: "run 9 new_Session (map (Add_backoff one_heap) [0..<Suc 4294967294]) =
    Inr \<lparr>backoff_count = of_nat (Suc 4294967294), backoffs = [(1, [(5, [0..<Suc 4294967294])])],
         backoff_seq = 0\<rparr>"
    using hb b by (rule run_add_distinct)
  have nz: "(of_nat (Suc 4294967294) :: 32 word) \<noteq> 0" by simp
  have w: "(of_nat (Suc 4294967294) :: 32 word) + 1 = 0" by simp
  have ins: "set_insert (Suc 4294967294) [0..<Suc 4294967294] = [0..<Suc 4294967294] @ [Suc 4294967294]"
    by (rule set_insert_last) simp
  have up: "[0..<Suc (Suc 4294967294)] = [0..<Suc 4294967294] @ [Suc 4294967294]"
    by (rule upt_Suc_append) simp
  have step: "run 9 \<lparr>backoff_count = of_nat (Suc 4294967294),
        backoffs = [(1, [(5, [0..<Suc 4294967294])])], backoff_seq = 0\<rparr>
      [Add_backoff one_heap (Suc 4294967294)] =
    Inr \<lparr>backoff_count = 0, backoffs = [(1::nat, [(5::nat, [0..<Suc (Suc 4294967294)])])],
         backoff_seq = 0\<rparr>"
    using hb nz
    by (simp only: run.simps do_call.simps snd_add_backoff add_backoff_locked_def
        count_matches_empty_def Session.simps map_subscript.simps ins up w
        list.simps if_True if_False not_False_eq_True simp_thms sum.case)
  have "map (Add_backoff one_heap) [0..<Suc (Suc 4294967294)] =
        map (Add_backoff one_heap) [0..<Suc 4294967294] @ [Add_backoff one_heap (Suc 4294967294)]"
    by (simp only: up map_append list.map)
  then have "run 9 new_Session (map (Add_backoff one_heap) [0..<Suc (Suc 4294967294)]) =
     Inr \<lparr>backoff_count = 0, backoffs = [(1, [(5, [0..<Suc (Suc 4294967294)])])], backoff_seq = 0\<rparr>"
    by (simp only: run_append r sum.case step)
  moreover have "\<not> count_matches_empty
     (\<lparr>backoff_count = 0, backoffs = [(1, [(5, [0..<Suc (Suc 4294967294)])])], backoff_seq = 0\<rparr>
        :: (nat, nat) Session)"
    by (simp only: count_matches_empty_def Session.simps list.simps simp_thms)
  moreover have "add_backoff one_heap
     \<lparr>backoff_count = 0, backoffs = [(1, [(5, [0..<Suc (Suc 4294967294)])])], backoff_seq = 0\<rparr>
     4294967296 = ([Lock_backoff_lock], Inl Assert_count_matches_empty)"
    by (simp only: add_backoff_def add_backoff_locked_def Locker_def count_matches_empty_def
        Session.simps list.simps simp_thms if_True sum.case)
  moreover have "covers one_heap 0 7"
    by (simp add: covers_def one_heap_def new_Backoff_def)
  moreover have "have_backoff one_heap
     \<lparr>backoff_count = 0, backoffs = [(1, [(5, [0..<Suc (Suc 4294967294)])])], backoff_seq = 0\<rparr>
     1 7 = ([], Inr None)"
    by (simp only: have_backoff_def Session.simps simp_thms if_True)
  ultimately show ?thesis unfolding n by (intro conjI)
qed

section \<open>Removing a token twice\<close>

text \<open>
  C6: let a first \<open>rm_backoff\<close> of a token return on a well-formed session. The token is
  then no longer in the index, and a second \<open>rm_backoff\<close> of the same token changes
  nothing: if the caller again holds the token's lock and the token still names this
  session, the call returns the session as it is, \<open>backoff_count\<close> and the nested map
  unchanged, the count not decremented a second time and the assertion on exit
  satisfied; otherwise it stops at one of its first two assertions. Whenever the second
  call returns, it returns the session unchanged.
\<close>

theorem rm_backoff_twice:
  assumes "wf_session S"
      and "snd (rm_backoff this me h S b) = Inr S1"
      and "pgid (h' b) = pgid (h b)" "b_begin (h' b) = b_begin (h b)"
  shows "\<not> present h' S1 b \<and> count_matches_empty S1 \<and>
         (is_locked_by_me me' (lock (h' b)) \<and> session (h' b) = Some this \<longrightarrow>
            rm_backoff this me' h' S1 b = ([Lock_backoff_lock, Unlock_backoff_lock], Inr S1)) \<and>
         (\<forall>S2. snd (rm_backoff this me' h' S1 b) = Inr S2 \<longrightarrow> S2 = S1)"
proof -
  from assms(2) have S1: "S1 = rm_backoff_unlink h S b" and ok: "count_matches_empty S1"
    by (auto simp: snd_rm_backoff rm_backoff_locked_def Let_def split: if_splits)
  have "\<not> present h S1 b"
    unfolding S1 using assms(1) by (rule rm_backoff_unlink_removes)
  with assms(3,4) have np: "\<not> present h' S1 b"
    by (simp add: present_def)
  then have "rm_backoff_unlink h' S1 b = S1" by (rule rm_backoff_unlink_absent)
  with ok np show ?thesis
    by (simp add: rm_backoff_def rm_backoff_locked_def Locker_def)
qed

theorem rm_backoff_twice_witness:
  "wf_session one_session \<and>
   snd (rm_backoff 9 4 held_heap one_session 3) = Inr new_Session \<and>
   \<not> present held_heap new_Session 3 \<and>
   rm_backoff 9 4 held_heap new_Session 3 = ([Lock_backoff_lock, Unlock_backoff_lock], Inr new_Session) \<and>
   count_matches_empty (new_Session :: (nat, nat) Session) \<and>
   sint (backoff_count (new_Session :: (nat, nat) Session)) = 0"
proof -
  have w: "wf_session one_session"
    by (simp add: wf_session_def wf_starts_def one_session_def)
  have hb: "pgid (held_heap 3) = 1" "b_begin (held_heap 3) = 5"
    "is_locked_by_me 4 (lock (held_heap 3))" "session (held_heap 3) = Some 9"
    by (simp_all add: held_heap_def one_heap_def new_Backoff_def is_locked_by_me_def)
  have r: "snd (rm_backoff 9 4 held_heap one_session 3) = Inr new_Session"
    by (simp add: snd_rm_backoff rm_backoff_locked_def rm_backoff_unlink_def hb one_session_def
        new_Session_def count_matches_empty_def erase_at_def)
  from w r hb(3,4)
    rm_backoff_twice [where h = held_heap and h' = held_heap and b = 3 and me' = 4, OF w r refl refl]
  show ?thesis
    by (simp add: new_Session_def)
qed

section \<open>The assertions of rm_backoff\<close>

text \<open>
  C7: \<open>rm_backoff\<close> takes the session's lock and then asserts that the caller holds the
  token's own lock and that the token's session reference is this session. If the caller
  does not hold the token's lock the call aborts at the first assertion; if it does and
  the token names another session (or none) the call aborts at the second. If both hold,
  neither of these two assertions fails: the call unlinks the token and goes on to the
  assertion on exit, which compares the count with the emptiness of the index.
\<close>

theorem rm_backoff_preconditions:
  "(\<not> is_locked_by_me me (lock (h b)) \<longrightarrow>
      rm_backoff this me h S b = ([Lock_backoff_lock], Inl Assert_lock_is_locked_by_me)) \<and>
   (is_locked_by_me me (lock (h b)) \<and> session (h b) \<noteq> Some this \<longrightarrow>
      rm_backoff this me h S b = ([Lock_backoff_lock], Inl Assert_session_is_this)) \<and>
   (is_locked_by_me me (lock (h b)) \<and> session (h b) = Some this \<longrightarrow>
      snd (rm_backoff this me h S b) \<noteq> Inl Assert_lock_is_locked_by_me \<and>
      snd (rm_backoff this me h S b) \<noteq> Inl Assert_session_is_this \<and>
      snd (rm_backoff this me h S b) =
        (if count_matches_empty (rm_backoff_unlink h S b) then Inr (rm_backoff_unlink h S b)
         else Inl Assert_count_matches_empty))"
  by (simp add: rm_backoff_def rm_backoff_locked_def Locker_def Let_def)

theorem rm_backoff_preconditions_witness:
  "rm_backoff 9 4 one_heap one_session 3 = ([Lock_backoff_lock], Inl Assert_lock_is_locked_by_me) \<and>
   rm_backoff 8 4 held_heap one_session 3 = ([Lock_backoff_lock], Inl Assert_session_is_this) \<and>
   snd (rm_backoff 9 4 held_heap one_session 3) \<noteq> Inl Assert_lock_is_locked_by_me \<and>
   snd (rm_backoff 9 4 held_heap one_session 3) \<noteq> Inl Assert_session_is_this \<and>
   snd (rm_backoff 9 4 held_heap one_session 3) = Inr new_Session"
proof -
  have "\<not> is_locked_by_me 4 (lock (one_heap 3))"
    by (simp add: one_heap_def new_Backoff_def is_locked_by_me_def)
  moreover have "is_locked_by_me 4 (lock (held_heap 3))" "session (held_heap 3) = Some 9"
    by (simp_all add: held_heap_def one_heap_def new_Backoff_def is_locked_by_me_def)
  moreover have "rm_backoff_unlink held_heap one_session 3 = new_Session"
    by (simp add: rm_backoff_unlink_def held_heap_def one_heap_def new_Backoff_def
        one_session_def new_Session_def erase_at_def)
  moreover have "count_matches_empty (new_Session :: (nat, nat) Session)"
    by (simp add: count_matches_empty_def new_Session_def)
  ultimately show ?thesis
    using rm_backoff_preconditions [of 4 one_heap 3 9 one_session]
      rm_backoff_preconditions [of 4 held_heap 3 8 one_session]
      rm_backoff_preconditions [of 4 held_heap 3 9 one_session]
    by simp
qed

section \<open>Lookup\<close>

text \<open>
  C8: if \<open>backoff_count\<close> reads zero, \<open>have_backoff\<close> returns \<open>nullptr\<close> for every shard-id
  and key, and does nothing to the session's lock.
\<close>

theorem have_backoff_fast_path:
  "backoff_count S = 0 \<Longrightarrow> have_backoff h S pgid' oid = ([], Inr None)"
  by (simp add: have_backoff_def)

theorem have_backoff_fast_path_witness:
  "backoff_count (new_Session :: (nat, nat) Session) = 0 \<and>
   have_backoff one_heap new_Session 1 7 = ([], Inr None)"
proof -
  have z: "backoff_count (new_Session :: (nat, nat) Session) = 0"
    by (simp add: new_Session_def)
  from z have_backoff_fast_path [OF z, of one_heap 1 7] show ?thesis by simp
qed

text \<open>
  C10: \<open>have_backoff\<close> never reads the state of a token. Whatever states the registered
  tokens are given, New, Acked, Deleting or any other, the lookup of every shard-id and
  key returns what it returned before.
\<close>

theorem have_backoff_ignores_state:
  "have_backoff (with_states f h) S pgid' oid = have_backoff h S pgid' oid"
proof -
  have "scan (with_states f h) r oid qs = scan h r oid qs" for r qs
    by (induction qs) (simp_all add: with_states_def)
  then show ?thesis by (simp add: have_backoff_def have_backoff_locked_def Let_def)
qed

theorem have_backoff_ignores_state_witness:
  "is_deleting (with_states (\<lambda>q. STATE_DELETING) one_heap 3) \<and>
   is_new (one_heap 3) \<and>
   have_backoff one_heap one_session 1 7 = ([Lock_backoff_lock, Unlock_backoff_lock], Inr (Some 3)) \<and>
   have_backoff (with_states (\<lambda>q. STATE_DELETING) one_heap) one_session 1 7 =
     ([Lock_backoff_lock, Unlock_backoff_lock], Inr (Some 3))"
proof -
  have "have_backoff one_heap one_session 1 7 = ([Lock_backoff_lock, Unlock_backoff_lock], Inr (Some 3))"
    by (simp add: have_backoff_def have_backoff_locked_def Locker_def count_matches_empty_def
        nearest_def cmp_def one_session_def one_heap_def new_Backoff_def)
  then show ?thesis
    using have_backoff_ignores_state [of "\<lambda>q. STATE_DELETING" one_heap one_session 1 7]
    by (simp add: with_states_def is_deleting_def is_new_def one_heap_def new_Backoff_def)
qed



section \<open>What a lookup finds\<close>

text \<open>
  C1, as the code has it: on a well-formed index whose tokens are filed under their own
  shard-id and \<open>begin\<close>, with the count matching the emptiness of the index, and provided
  the ranges registered for the shard under different starts do not overlap,
  \<open>have_backoff\<close> returns without a failed assertion, and it returns a token if and only
  if some token registered for that shard has \<open>begin == key\<close> or \<open>begin \<le> key < end\<close>;
  the token it returns is such a token.
\<close>

theorem have_backoff_finds_covering_token:
  assumes wf: "wf_session S" and im: "index_matches h S" and cme: "count_matches_empty S"
      and no: "non_overlapping h S P"
  shows "\<exists>r. snd (have_backoff h S P oid) = Inr r \<and>
           ((r \<noteq> None) = (\<exists>q \<in> set (registered S P). covers h q oid)) \<and>
           (\<forall>q. r = Some q \<longrightarrow> q \<in> set (registered S P) \<and> covers h q oid)"
proof -
  let ?m = "bucket (backoffs S) P"
  let ?r = "if nearest ?m oid \<noteq> length ?m
         then (if cmp oid (fst (?m ! nearest ?m oid)) = 0 \<or> cmp oid (fst (?m ! nearest ?m oid)) > 0
               then scan h (cmp oid (fst (?m ! nearest ?m oid))) oid (snd (?m ! nearest ?m oid))
               else None)
         else None"
  have res: "snd (have_backoff h S P oid) = Inr ?r"
    using have_backoff_via_bucket [OF cme, of h P oid] by (simp add: Let_def)
  have sorted: "sorted_wrt (<) (map fst ?m)" using wf by (rule wf_session_bucket_sorted)
  have nonempty: "\<forall>e \<in> set ?m. snd e \<noteq> []"
  proof (cases "?m = []")
    case True
    then show ?thesis by simp
  next
    case False
    with wf have "wf_starts ?m" by (rule wf_session_bucket)
    then show ?thesis by (simp add: wf_starts_def list_all_iff)
  qed
  have filed: "\<forall>e \<in> set ?m. \<forall>q \<in> set (snd e). b_begin (h q) = fst e"
    using index_matches_bucket [OF im] by blast
  have apart: "\<forall>q \<in> set (concat (map snd ?m)). \<forall>q' \<in> set (concat (map snd ?m)).
                    b_begin (h q) < b_begin (h q') \<longrightarrow> b_end (h q) \<le> b_begin (h q')"
    using no by (simp add: non_overlapping_def registered_def)
  from lookup_in_bucket [OF sorted nonempty filed apart refl, of oid] res
  show ?thesis by (simp add: registered_def)
qed

theorem have_backoff_finds_covering_token_witness:
  "wf_session two_session \<and> index_matches apart_heap two_session \<and>
   count_matches_empty two_session \<and> non_overlapping apart_heap two_session 1 \<and>
   snd (have_backoff apart_heap two_session 1 2) = Inr (Some 1) \<and>
   1 \<in> set (registered two_session 1) \<and> covers apart_heap 1 2 \<and>
   snd (have_backoff apart_heap two_session 1 7) = Inr None"
proof -
  have h: "apart_heap 1 = new_Backoff 1 (Some 7) (Some 9) 1 1 4"
    "apart_heap (Suc 0) = new_Backoff 1 (Some 7) (Some 9) 1 1 4"
    "apart_heap 2 = new_Backoff 1 (Some 7) (Some 9) 2 5 6"
    by (simp_all add: apart_heap_def)
  have w: "wf_session two_session"
    by (simp add: wf_session_def wf_starts_def two_session_def)
  have i: "index_matches apart_heap two_session"
    by (simp add: index_matches_def two_session_def h new_Backoff_def)
  have c: "count_matches_empty two_session"
    by (simp add: count_matches_empty_def two_session_def)
  have r: "registered two_session 1 = [1, 2]" "registered two_session (Suc 0) = [1, 2]"
    by (simp_all add: registered_def two_session_def)
  have n: "non_overlapping apart_heap two_session 1"
    by (simp add: non_overlapping_def r h new_Backoff_def)
  have l2: "snd (have_backoff apart_heap two_session 1 2) = Inr (Some 1)"
    by (simp add: have_backoff_def have_backoff_locked_def Locker_def count_matches_empty_def
        nearest_def cmp_def two_session_def h new_Backoff_def)
  have l7: "snd (have_backoff apart_heap two_session 1 7) = Inr None"
    by (simp add: have_backoff_def have_backoff_locked_def Locker_def count_matches_empty_def
        nearest_def cmp_def two_session_def h new_Backoff_def)
  have cov: "covers apart_heap 1 2"
    by (simp add: covers_def h new_Backoff_def)
  from have_backoff_finds_covering_token [OF w i c n, of 2] w i c n l2 l7 cov r
  show ?thesis by simp
qed

text \<open>
  C1 as stated, with no condition on how the ranges overlap, fails. Register [1, 10)
  and then [5, 6) for shard 1, by two calls of \<open>add_backoff\<close> on a fresh session. The key
  7 lies in [1, 10), but the lookup steps back to the start 5, finds only [5, 6) there,
  and returns \<open>nullptr\<close>.
\<close>

theorem have_backoff_misses_enclosing_range:
  "run 9 new_Session [Add_backoff overlap_heap 1, Add_backoff overlap_heap 2] = Inr two_session \<and>
   1 \<in> set (registered two_session 1) \<and>
   covers overlap_heap 1 7 \<and>
   snd (have_backoff overlap_heap two_session 1 7) = Inr None"
proof -
  have h: "overlap_heap 1 = new_Backoff 1 (Some 7) (Some 9) 1 1 10"
    "overlap_heap (Suc 0) = new_Backoff 1 (Some 7) (Some 9) 1 1 10"
    "overlap_heap 2 = new_Backoff 1 (Some 7) (Some 9) 2 5 6"
    by (simp_all add: overlap_heap_def)
  have "run 9 new_Session [Add_backoff overlap_heap 1, Add_backoff overlap_heap 2] = Inr two_session"
    by (simp add: snd_add_backoff add_backoff_locked_def count_matches_empty_def new_Session_def
        two_session_def h new_Backoff_def)
  moreover have "1 \<in> set (registered two_session 1)"
    by (simp add: registered_def two_session_def)
  moreover have "covers overlap_heap 1 7"
    by (simp add: covers_def h new_Backoff_def)
  moreover have "snd (have_backoff overlap_heap two_session 1 7) = Inr None"
    by (simp add: have_backoff_def have_backoff_locked_def Locker_def count_matches_empty_def
        nearest_def cmp_def two_session_def h new_Backoff_def)
  ultimately show ?thesis by simp
qed

section \<open>The count and the number of entries\<close>

text \<open>
  C9: whenever \<open>add_backoff\<close> returns on a well-formed session it has incremented
  \<open>backoff_count\<close>, whether or not the token was already in the set it is inserted
  into. If it was, the insertion changes nothing: the index and its number of entries
  are as before, so a count that was equal to the number of entries no longer is. If it
  was not, the number of entries grows by one, and a count equal to it (and below
  \<open>INT_MAX\<close>) stays equal.
\<close>

theorem add_backoff_counts_duplicates:
  assumes "wf_session S" and "snd (add_backoff h S b) = Inr S'"
  shows "backoff_count S' = backoff_count S + 1 \<and>
         (present h S b \<longrightarrow>
            backoffs S' = backoffs S \<and> total_entries S' = total_entries S \<and>
            (count_is_total S \<longrightarrow> \<not> count_is_total S')) \<and>
         (\<not> present h S b \<longrightarrow>
            total_entries S' = total_entries S + 1 \<and>
            (count_is_total S \<and> int (total_entries S) < INT_MAX \<longrightarrow> count_is_total S'))"
proof -
  from assms(2) have S': "S' = S\<lparr>backoffs := map_subscript (pgid (h b))
            (map_subscript (b_begin (h b)) (set_insert b)) (backoffs S),
            backoff_count := backoff_count S + 1\<rparr>"
    by (simp add: snd_add_backoff add_backoff_locked_def split: if_splits)
  have c: "backoff_count S' = backoff_count S + 1" by (simp add: S')
  have p: "backoffs S' = backoffs S \<and> total_entries S' = total_entries S \<and>
            (count_is_total S \<longrightarrow> \<not> count_is_total S')" if "present h S b"
  proof -
    from add_backoff_present [OF assms(1) that] have "backoffs S' = backoffs S"
      by (simp add: S')
    moreover then have "total_entries S' = total_entries S"
      by (simp add: total_entries_def)
    moreover have "sint (backoff_count S + 1) \<noteq> sint (backoff_count S)"
      by (rule sint_succ_neq)
    ultimately show ?thesis by (simp add: count_is_total_def c)
  qed
  have f: "total_entries S' = total_entries S + 1 \<and>
            (count_is_total S \<and> int (total_entries S) < INT_MAX \<longrightarrow> count_is_total S')"
    if "\<not> present h S b"
  proof -
    from add_backoff_fresh [OF assms(1) that] have t: "total_entries S' = Suc (total_entries S)"
      by (simp add: S')
    then show ?thesis
      by (auto simp: count_is_total_def c INT_MAX_def sint32_succ)
  qed
  from c p f show ?thesis by blast
qed

theorem add_backoff_counts_duplicates_witness:
  "wf_session one_session \<and> count_is_total one_session \<and>
   present one_heap one_session 3 \<and>
   snd (add_backoff one_heap one_session 3) = Inr (one_session\<lparr>backoff_count := 2\<rparr>) \<and>
   total_entries (one_session\<lparr>backoff_count := 2\<rparr>) = 1 \<and>
   \<not> count_is_total (one_session\<lparr>backoff_count := 2\<rparr>) \<and>
   \<not> present one_heap one_session 4 \<and>
   snd (add_backoff one_heap one_session 4) =
     Inr \<lparr>backoff_count = 2, backoffs = [(1, [(5, [3, 4])])], backoff_seq = 0\<rparr> \<and>
   count_is_total
     (\<lparr>backoff_count = 2, backoffs = [(1, [(5, [3, 4])])], backoff_seq = 0\<rparr> :: (nat, nat) Session)"
proof -
  have hb: "pgid (one_heap 3) = 1" "b_begin (one_heap 3) = 5"
    "pgid (one_heap 4) = 1" "b_begin (one_heap 4) = 5"
    by (simp_all add: one_heap_def new_Backoff_def)
  have w: "wf_session one_session"
    by (simp add: wf_session_def wf_starts_def one_session_def)
  have t: "count_is_total one_session"
    by (simp add: count_is_total_def total_entries_def one_session_def)
  have p3: "present one_heap one_session 3" and p4: "\<not> present one_heap one_session 4"
    by (simp_all add: present_def hb one_session_def)
  have a3: "snd (add_backoff one_heap one_session 3) = Inr (one_session\<lparr>backoff_count := 2\<rparr>)"
    by (simp add: snd_add_backoff add_backoff_locked_def count_matches_empty_def hb one_session_def)
  have a4: "snd (add_backoff one_heap one_session 4) =
     Inr \<lparr>backoff_count = 2, backoffs = [(1, [(5, [3, 4])])], backoff_seq = 0\<rparr>"
    by (simp add: snd_add_backoff add_backoff_locked_def count_matches_empty_def hb one_session_def)
  have b: "int (total_entries one_session) < INT_MAX"
    by (simp add: total_entries_def one_session_def INT_MAX_def)
  have te: "total_entries one_session = 1"
    by (simp add: total_entries_def one_session_def)
  from add_backoff_counts_duplicates [OF w a3] add_backoff_counts_duplicates [OF w a4]
    w t p3 p4 a3 a4 b te
  show ?thesis by simp
qed

section \<open>Construction of a token\<close>

text \<open>
  C5: constructed with a shard reference and a session reference that are both non-null,
  as construction requires, a token starts in state New, has the given shard-id, id and
  range, and holds the two references it was given: it is not detached.
\<close>

theorem new_Backoff_attached:
  assumes "g \<noteq> None" and "s \<noteq> None"
  shows "state (new_Backoff p g s i b e) = STATE_NEW \<and>
         is_new (new_Backoff p g s i b e) \<and>
         pgid (new_Backoff p g s i b e) = p \<and>
         b_id (new_Backoff p g s i b e) = i \<and>
         b_begin (new_Backoff p g s i b e) = b \<and>
         b_end (new_Backoff p g s i b e) = e \<and>
         pg (new_Backoff p g s i b e) = g \<and>
         session (new_Backoff p g s i b e) = s \<and>
         pg (new_Backoff p g s i b e) \<noteq> None \<and>
         session (new_Backoff p g s i b e) \<noteq> None"
  using assms by (simp add: new_Backoff_def is_new_def)

theorem new_Backoff_attached_witness:
  "Some (7::nat) \<noteq> None \<and> Some (9::nat) \<noteq> None \<and>
   is_new (new_Backoff (1::nat) (Some 7) (Some 9) 4 (5::nat) 10) \<and>
   pgid (new_Backoff (1::nat) (Some 7) (Some 9) 4 (5::nat) 10) = 1 \<and>
   b_id (new_Backoff (1::nat) (Some 7) (Some 9) 4 (5::nat) 10) = 4 \<and>
   b_begin (new_Backoff (1::nat) (Some 7) (Some 9) 4 (5::nat) 10) = 5 \<and>
   b_end (new_Backoff (1::nat) (Some 7) (Some 9) 4 (5::nat) 10) = 10 \<and>
   pg (new_Backoff (1::nat) (Some 7) (Some 9) 4 (5::nat) 10) = Some 7 \<and>
   session (new_Backoff (1::nat) (Some 7) (Some 9) 4 (5::nat) 10) = Some 9"
proof -
  have g: "Some (7::nat) \<noteq> None" and s: "Some (9::nat) \<noteq> None" by simp_all
  from new_Backoff_attached [OF g s, of "1::nat" 4 "5::nat" 10] show ?thesis by simp
qed

end
